theory Spec2Isabelle
  imports Main
begin

section \<open>Text: Python strings as lists of code points\<close>

text \<open>
  \<^verbatim>\<open>migrate_logger.py\<close> opens its file in text mode, so \<^verbatim>\<open>content\<close> is a Python
  \<^verbatim>\<open>str\<close>: a sequence of Unicode code points. A code point is a natural number here.
  String literals of the script are written as Isabelle strings and converted by \<open>py\<close>.
\<close>

type_synonym ustr = "nat list"

definition py :: "string \<Rightarrow> ustr" where
  "py cs = map of_char cs"

text \<open>
  The regular expression class \<^verbatim>\<open>\w\<close> on a \<^verbatim>\<open>str\<close> pattern: the ASCII letters, the
  ASCII digits and the underscore, and beyond ASCII whatever Python's Unicode database
  calls alphanumeric. That table is not part of the script; it is the parameter \<open>uw\<close>,
  consulted only for code points from 128 on.
\<close>

definition is_word :: "(nat \<Rightarrow> bool) \<Rightarrow> nat \<Rightarrow> bool" where
  "is_word uw c =
     (if c < 128
      then (97 \<le> c \<and> c \<le> 122) \<or> (65 \<le> c \<and> c \<le> 90) \<or> (48 \<le> c \<and> c \<le> 57) \<or> c = 95
      else uw c)"

text \<open>Whether the text that remains starts with a word character (false at the end).\<close>

definition next_is_word :: "(nat \<Rightarrow> bool) \<Rightarrow> ustr \<Rightarrow> bool" where
  "next_is_word uw s = (case s of [] \<Rightarrow> False | x # _ \<Rightarrow> is_word uw x)"

section \<open>The regular expressions of the script\<close>

text \<open>
  The three patterns use two constructs only: the word boundary \<^verbatim>\<open>\b\<close> and literal
  characters (\<^verbatim>\<open>\.\<close> is a literal dot). \<open>match_atoms\<close> matches a sequence of them at
  the current position: \<open>pw\<close> says whether the character before the position is a word
  character (false at the start of the text), the last argument is the text from the
  position on. The result is the same pair for the position after the match.
\<close>

datatype atom = WordB | Chr nat

fun match_atoms :: "(nat \<Rightarrow> bool) \<Rightarrow> atom list \<Rightarrow> bool \<Rightarrow> ustr \<Rightarrow> (bool \<times> ustr) option" where
  "match_atoms uw [] pw s = Some (pw, s)"
| "match_atoms uw (WordB # as) pw s =
     (if pw \<noteq> next_is_word uw s then match_atoms uw as pw s else None)"
| "match_atoms uw (Chr c # as) pw [] = None"
| "match_atoms uw (Chr c # as) pw (x # xs) =
     (if x = c then match_atoms uw as (is_word uw x) xs else None)"

text \<open>
  \<^verbatim>\<open>re.sub(pattern, repl, string)\<close>: scan from the left; where the pattern matches, emit
  the replacement and go on after the match; elsewhere copy one character. A match that
  consumes nothing is replaced and the scan moves one character on (no pattern of the
  script has such a match).
\<close>

function re_sub :: "(nat \<Rightarrow> bool) \<Rightarrow> atom list \<Rightarrow> ustr \<Rightarrow> bool \<Rightarrow> ustr \<Rightarrow> ustr" where
  "re_sub uw pat repl pw s =
     (case match_atoms uw pat pw s of
        Some (pw', r) \<Rightarrow>
          if length r < length s then repl @ re_sub uw pat repl pw' r
          else (case s of
                  [] \<Rightarrow> repl
                | c # cs \<Rightarrow> repl @ c # re_sub uw pat repl (is_word uw c) cs)
      | None \<Rightarrow>
          (case s of
             [] \<Rightarrow> []
           | c # cs \<Rightarrow> c # re_sub uw pat repl (is_word uw c) cs))"
  by pat_completeness auto
termination
  by (relation "measure (\<lambda>(uw, pat, repl, pw, s). length s)") auto

declare re_sub.simps [simp del]

text \<open>\<^verbatim>\<open>r'\blog\.Printf\b'\<close> and its two siblings, and the replacement text.\<close>

definition word_pattern :: "ustr \<Rightarrow> atom list" where
  "word_pattern t = WordB # map Chr t @ [WordB]"

definition log_Printf :: ustr where "log_Printf = py ''log.Printf''"
definition log_Println :: ustr where "log_Println = py ''log.Println''"
definition log_Print :: ustr where "log_Print = py ''log.Print''"
definition logger_Info :: ustr where "logger_Info = py ''logger.Info''"

text \<open>Lines 20 to 37 of the script: the three substitutions, in the script's order.\<close>

definition migrate_content :: "(nat \<Rightarrow> bool) \<Rightarrow> ustr \<Rightarrow> ustr" where
  "migrate_content uw content =
     (let new_content = re_sub uw (word_pattern log_Printf) logger_Info False content;
          new_content = re_sub uw (word_pattern log_Println) logger_Info False new_content;
          new_content = re_sub uw (word_pattern log_Print) logger_Info False new_content
      in new_content)"

section \<open>Whole-token occurrences\<close>

text \<open>The three target tokens, in the order in which the script substitutes them.\<close>

definition targets :: "ustr list" where
  "targets = [log_Printf, log_Println, log_Print]"

text \<open>
  The same three substitutions applied in some other order (the script's order is
  \<open>targets\<close>): each rule is one \<^verbatim>\<open>re.sub\<close> call on the result of the previous one.
\<close>

definition apply_rules :: "(nat \<Rightarrow> bool) \<Rightarrow> ustr list \<Rightarrow> ustr \<Rightarrow> ustr" where
  "apply_rules uw order content =
     foldl (\<lambda>new_content t. re_sub uw (word_pattern t) logger_Info False new_content) content order"

text \<open>
  The text \<open>t\<close> occurs in \<open>s\<close> at index \<open>i\<close>; the character before index \<open>i\<close>, and
  the character at index \<open>j\<close>, is an identifier character (a letter, a digit or an
  underscore: the word characters of the regular expressions).
\<close>

definition occurs_at :: "ustr \<Rightarrow> nat \<Rightarrow> ustr \<Rightarrow> bool" where
  "occurs_at s i t = (take (length t) (drop i s) = t)"

definition ident_before :: "(nat \<Rightarrow> bool) \<Rightarrow> ustr \<Rightarrow> nat \<Rightarrow> bool" where
  "ident_before uw s i = (0 < i \<and> is_word uw (s ! (i - 1)))"

definition ident_after :: "(nat \<Rightarrow> bool) \<Rightarrow> ustr \<Rightarrow> nat \<Rightarrow> bool" where
  "ident_after uw s j = (j < length s \<and> is_word uw (s ! j))"

text \<open>
  A whole-token occurrence: the text occurs at \<open>i\<close> and is neither immediately preceded
  nor immediately followed by an identifier character.
\<close>

definition whole_token_at :: "(nat \<Rightarrow> bool) \<Rightarrow> ustr \<Rightarrow> nat \<Rightarrow> ustr \<Rightarrow> bool" where
  "whole_token_at uw s i t =
     (occurs_at s i t \<and> \<not> ident_before uw s i \<and> \<not> ident_after uw s (i + length t))"

text \<open>
  All whole-token occurrences of the three targets from index \<open>k\<close> on, as pairs of index
  and token, by increasing index.
\<close>

definition occurrences_from :: "(nat \<Rightarrow> bool) \<Rightarrow> ustr \<Rightarrow> nat \<Rightarrow> (nat \<times> ustr) list" where
  "occurrences_from uw s k =
     concat (map (\<lambda>i. map (Pair i) (filter (whole_token_at uw s i) targets)) [k..<length s])"


definition occurrences :: "(nat \<Rightarrow> bool) \<Rightarrow> ustr \<Rightarrow> (nat \<times> ustr) list" where
  "occurrences uw s = occurrences_from uw s 0"

text \<open>
  The text \<open>s\<close>, whose first character has index \<open>pos\<close>, with each listed span (index and
  token) cut out and \<^verbatim>\<open>logger.Info\<close> put in its place; everything else is copied.
\<close>

fun splice :: "nat \<Rightarrow> ustr \<Rightarrow> (nat \<times> ustr) list \<Rightarrow> ustr" where
  "splice pos s [] = s"
| "splice pos s ((i, t) # os) =
     take (i - pos) s @ logger_Info @ splice (i + length t) (drop (i - pos + length t) s) os"

text \<open>
  The glossary of the specification counts the dot among the identifier characters
  (letters, digits, dots, underscores) and calls a match whole-token when no identifier
  character stands immediately before or after it. The neighbour tests, the whole-token
  test and the list of whole-token occurrences, read with the glossary's character class:
\<close>

definition glossary_ident :: "(nat \<Rightarrow> bool) \<Rightarrow> nat \<Rightarrow> bool" where
  "glossary_ident uw c = (is_word uw c \<or> c = 46)"

definition glossary_before :: "(nat \<Rightarrow> bool) \<Rightarrow> ustr \<Rightarrow> nat \<Rightarrow> bool" where
  "glossary_before uw s i = (0 < i \<and> glossary_ident uw (s ! (i - 1)))"

definition glossary_after :: "(nat \<Rightarrow> bool) \<Rightarrow> ustr \<Rightarrow> nat \<Rightarrow> bool" where
  "glossary_after uw s j = (j < length s \<and> glossary_ident uw (s ! j))"

definition glossary_token_at :: "(nat \<Rightarrow> bool) \<Rightarrow> ustr \<Rightarrow> nat \<Rightarrow> ustr \<Rightarrow> bool" where
  "glossary_token_at uw s i t =
     (occurs_at s i t \<and> \<not> glossary_before uw s i \<and> \<not> glossary_after uw s (i + length t))"

definition glossary_occurrences :: "(nat \<Rightarrow> bool) \<Rightarrow> ustr \<Rightarrow> (nat \<times> ustr) list" where
  "glossary_occurrences uw s =
     concat (map (\<lambda>i. map (Pair i) (filter (glossary_token_at uw s i) targets)) [0..<length s])"

text \<open>A Unicode table with no word character beyond ASCII, for concrete runs.\<close>

definition ascii_table :: "nat \<Rightarrow> bool" where
  "ascii_table c = False"

section \<open>One pass for a set of tokens\<close>

text \<open>
  \<open>token_here\<close> says what a match of \<open>word_pattern t\<close> amounts to at the current
  position, and \<open>scan\<close> substitutes every token of a list \<open>A\<close> in a single pass. Each
  \<^verbatim>\<open>re.sub\<close> call of the script is such a pass for one token, and passes compose.
\<close>

definition token_here :: "(nat \<Rightarrow> bool) \<Rightarrow> ustr \<Rightarrow> bool \<Rightarrow> ustr \<Rightarrow> bool" where
  "token_here uw t pw s =
     (\<not> pw \<and> take (length t) s = t \<and> \<not> next_is_word uw (drop (length t) s))"

definition hit :: "(nat \<Rightarrow> bool) \<Rightarrow> ustr list \<Rightarrow> bool \<Rightarrow> ustr \<Rightarrow> ustr option" where
  "hit uw A pw s = find (\<lambda>t. t \<in> set A \<and> token_here uw t pw s) targets"

fun scan :: "(nat \<Rightarrow> bool) \<Rightarrow> ustr list \<Rightarrow> bool \<Rightarrow> ustr \<Rightarrow> ustr" where
  "scan uw A pw [] = []"
| "scan uw A pw (c # cs) =
     (case hit uw A pw (c # cs) of
        Some t \<Rightarrow> logger_Info @ scan uw A True (drop (length t - 1) cs)
      | None \<Rightarrow> c # scan uw A (is_word uw c) cs)"

section \<open>The script and the file system\<close>

text \<open>
  What the script sees of the file system: a path names nothing, a directory, or a
  regular file with its permissions and its text. The trace records what the script
  prints and every file it opens or writes, in order.
\<close>

datatype node = Directory | Regular (readable: bool) (writable: bool) (file_text: ustr)

datatype event = Printed ustr | OpenRead ustr | OpenWrite ustr | Wrote ustr ustr

datatype py_exception = FileNotFoundError ustr | IsADirectoryError ustr | PermissionError ustr

text \<open>
  How the process ends: \<^verbatim>\<open>sys.exit(n)\<close> or the end of the script (status 0), or an
  exception that nothing catches, which the interpreter reports with a traceback and
  status 1.
\<close>

datatype status = Exit nat | Uncaught py_exception

fun exit_code :: "status \<Rightarrow> nat" where
  "exit_code (Exit n) = n"
| "exit_code (Uncaught e) = 1"

record world =
  files :: "ustr \<Rightarrow> node option"
  trace :: "event list"

definition emit :: "event \<Rightarrow> world \<Rightarrow> world" where
  "emit e w = w\<lparr>trace := trace w @ [e]\<rparr>"

text \<open>\<^verbatim>\<open>os.path.exists(file_path)\<close>\<close>

definition path_exists :: "world \<Rightarrow> ustr \<Rightarrow> bool" where
  "path_exists w p = (files w p \<noteq> None)"

text \<open>\<^verbatim>\<open>with open(file_path, 'r') as f: content = f.read()\<close>\<close>

definition read_file :: "world \<Rightarrow> ustr \<Rightarrow> (py_exception + ustr) \<times> world" where
  "read_file w p =
     (let w' = emit (OpenRead p) w in
      case files w p of
        None \<Rightarrow> (Inl (FileNotFoundError p), w')
      | Some Directory \<Rightarrow> (Inl (IsADirectoryError p), w')
      | Some (Regular r wr c) \<Rightarrow> if r then (Inr c, w') else (Inl (PermissionError p), w'))"

text \<open>\<^verbatim>\<open>with open(file_path, 'w') as f: f.write(new_content)\<close>\<close>

definition write_file :: "world \<Rightarrow> ustr \<Rightarrow> ustr \<Rightarrow> (py_exception + unit) \<times> world" where
  "write_file w p new_content =
     (let w' = emit (OpenWrite p) w in
      case files w p of
        None \<Rightarrow> (Inr (), emit (Wrote p new_content) (w'\<lparr>files := (files w)(p \<mapsto> Regular True True new_content)\<rparr>))
      | Some Directory \<Rightarrow> (Inl (IsADirectoryError p), w')
      | Some (Regular r wr c) \<Rightarrow>
          if wr then (Inr (), emit (Wrote p new_content) (w'\<lparr>files := (files w)(p \<mapsto> Regular r wr new_content)\<rparr>))
          else (Inl (PermissionError p), w'))"

text \<open>The script, top to bottom; \<open>argv\<close> is \<^verbatim>\<open>sys.argv\<close>.\<close>

definition main :: "(nat \<Rightarrow> bool) \<Rightarrow> ustr list \<Rightarrow> world \<Rightarrow> status \<times> world" where
  "main uw argv w =
     (if length argv < 2
      then (Exit 1, emit (Printed (py ''Usage: python3 migrate_logger.py <file_path>'')) w)
      else
        let file_path = argv ! 1 in
        if \<not> path_exists w file_path
        then (Exit 1, emit (Printed (py ''File '' @ file_path @ py '' not found'')) w)
        else
          (case read_file w file_path of
             (Inl e, w1) \<Rightarrow> (Uncaught e, w1)
           | (Inr content, w1) \<Rightarrow>
               let new_content = migrate_content uw content in
               (case write_file w1 file_path new_content of
                  (Inl e, w2) \<Rightarrow> (Uncaught e, w2)
                | (Inr u, w2) \<Rightarrow> (Exit 0, emit (Printed (py ''Processed '' @ file_path)) w2))))"


text \<open>
  Three concrete worlds: one file at \<^verbatim>\<open>/a.go\<close> with the given text, one directory, and
  one file at \<^verbatim>\<open>/a.go\<close> that may not be read.
\<close>

definition one_file :: "ustr \<Rightarrow> world" where
  "one_file c = \<lparr>files = Map.empty(py ''/a.go'' \<mapsto> Regular True True c), trace = []\<rparr>"




section \<open>Facts about the tokens and the matcher\<close>

lemma log_Printf_code: "log_Printf = [108, 111, 103, 46, 80, 114, 105, 110, 116, 102]"
  by (simp add: log_Printf_def py_def)
lemma log_Println_code: "log_Println = [108, 111, 103, 46, 80, 114, 105, 110, 116, 108, 110]"
  by (simp add: log_Println_def py_def)
lemma log_Print_code: "log_Print = [108, 111, 103, 46, 80, 114, 105, 110, 116]"
  by (simp add: log_Print_def py_def)
lemma logger_Info_code: "logger_Info = [108, 111, 103, 103, 101, 114, 46, 73, 110, 102, 111]"
  by (simp add: logger_Info_def py_def)

lemmas codes = log_Printf_code log_Println_code log_Print_code logger_Info_code

lemma match_lits:
  "match_atoms uw (map Chr t @ rest) pw s =
     (if take (length t) s = t
      then match_atoms uw rest (if t = [] then pw else is_word uw (last t)) (drop (length t) s)
      else None)"
proof (induction t arbitrary: pw s)
  case Nil
  then show ?case by simp
next
  case (Cons a t)
  show ?case
  proof (cases s)
    case Nil
    then show ?thesis by simp
  next
    case (Cons x xs)
    then show ?thesis using Cons.IH [of "is_word uw x" xs] by auto
  qed
qed

lemma match_word_pattern:
  assumes "t \<noteq> []" "is_word uw (hd t)" "is_word uw (last t)"
  shows "match_atoms uw (word_pattern t) pw s =
           (if token_here uw t pw s then Some (True, drop (length t) s) else None)"
proof -
  have hd: "take (length t) s = t \<Longrightarrow> next_is_word uw s"
    using assms by (cases s; cases t) (auto simp: next_is_word_def)
  show ?thesis
    unfolding word_pattern_def
    using assms hd by (auto simp: match_lits token_here_def)
qed

lemma targets_word:
  "t \<in> set targets \<Longrightarrow> t \<noteq> [] \<and> is_word uw (hd t) \<and> is_word uw (last t)"
  by (auto simp: targets_def codes is_word_def)

lemma re_sub_scan:
  assumes "t \<in> set targets"
  shows "re_sub uw (word_pattern t) logger_Info pw s = scan uw [t] pw s"
proof (induction s arbitrary: pw rule: length_induct)
  case (1 s)
  note mw = match_word_pattern [of t uw] 
  have tw: "t \<noteq> []" "is_word uw (hd t)" "is_word uw (last t)"
    using targets_word [OF assms] by auto
  have hit: "hit uw [t] pw s = (if token_here uw t pw s then Some t else None)" for pw s
    using assms by (auto simp: hit_def targets_def)
  show ?case
  proof (cases s)
    case Nil
    then show ?thesis
      using tw by (simp add: re_sub.simps [of _ _ _ _ "[]"] mw token_here_def)
  next
    case (Cons c cs)
    show ?thesis
    proof (cases "token_here uw t pw s")
      case True
      have len: "length (drop (length t) s) < length s"
        using tw Cons by simp
      have d: "drop (length t) s = drop (length t - 1) cs"
        using tw Cons by (cases t) auto
      have len': "length cs - (length t - Suc 0) < Suc (length cs)"
        by arith
      show ?thesis
        using True len' 1 [rule_format, OF len] d Cons
        by (simp add: re_sub.simps [of _ _ _ _ "c # cs"] mw tw hit)
    next
      case False
      then show ?thesis
        using 1 [rule_format, of cs] Cons
        by (simp add: re_sub.simps [of _ _ _ _ "c # cs"] mw tw hit)
    qed
  qed
qed

lemma token_here_iff:
  "token_here uw t pw s \<longleftrightarrow> \<not> pw \<and> (\<exists>r. s = t @ r \<and> \<not> next_is_word uw r)"
proof -
  have "take (length t) s = t \<longleftrightarrow> (\<exists>r. s = t @ r)"
    by (metis append_eq_conv_conj append_take_drop_id)
  then show ?thesis
    by (auto simp: token_here_def)
qed

lemma token_here_append [simp]:
  "token_here uw t pw (t @ r) \<longleftrightarrow> \<not> pw \<and> \<not> next_is_word uw r"
  by (simp add: token_here_def)

lemma is_word_ascii [simp]:
  "is_word uw 108" "is_word uw 111" "is_word uw 103" "\<not> is_word uw 46" "is_word uw 80"
  "is_word uw 114" "is_word uw 105" "is_word uw 110" "is_word uw 116" "is_word uw 102"
  "is_word uw 101" "is_word uw 73"
  by (simp_all add: is_word_def)

lemma next_is_word_Cons [simp]: "next_is_word uw (c # cs) = is_word uw c"
  by (simp add: next_is_word_def)

lemma next_is_word_Nil [simp]: "\<not> next_is_word uw []"
  by (simp add: next_is_word_def)

lemma token_here_unique:
  "t \<in> set targets \<Longrightarrow> t' \<in> set targets \<Longrightarrow> token_here uw t pw s \<Longrightarrow> token_here uw t' pw s \<Longrightarrow> t = t'"
  by (auto simp: targets_def token_here_iff codes)

lemma hit_Some:
  "hit uw A pw s = Some t \<longleftrightarrow> t \<in> set targets \<and> t \<in> set A \<and> token_here uw t pw s"
proof -
  have "hit uw A pw s = Some t \<Longrightarrow> t \<in> set targets \<and> t \<in> set A \<and> token_here uw t pw s"
    unfolding hit_def by (auto simp: find_Some_iff)
  moreover have "hit uw A pw s = Some t" if "t \<in> set targets" "t \<in> set A" "token_here uw t pw s"
  proof (cases "hit uw A pw s")
    case None
    then show ?thesis using that by (auto simp: hit_def find_None_iff)
  next
    case (Some t')
    then have "t' \<in> set targets \<and> token_here uw t' pw s"
      unfolding hit_def by (auto simp: find_Some_iff)
    then show ?thesis using token_here_unique that Some by blast
  qed
  ultimately show ?thesis by blast
qed

lemma hit_None:
  "hit uw A pw s = None \<longleftrightarrow> (\<forall>t \<in> set targets. t \<in> set A \<longrightarrow> \<not> token_here uw t pw s)"
  by (auto simp: hit_def find_None_iff)

lemma hit_None_word: "pw \<Longrightarrow> hit uw A pw s = None"
  by (simp add: hit_None token_here_def)

lemma hit_None_hd: "c \<noteq> 108 \<Longrightarrow> hit uw A pw (c # cs) = None"
  by (auto simp: hit_None token_here_iff targets_def codes)

lemma hit_None_logg: "hit uw A pw (108 # 111 # 103 # 103 # cs) = None"
  by (auto simp: hit_None token_here_iff targets_def codes)

lemma scan_chew: "scan uw A pw (logger_Info @ X) = logger_Info @ scan uw A True X"
  by (simp add: logger_Info_code hit_None_word hit_None_hd hit_None_logg)

lemma next_is_word_scan [simp]: "next_is_word uw (scan uw A pw s) = next_is_word uw s"
proof (cases s)
  case Nil
  then show ?thesis by simp
next
  case (Cons c cs)
  show ?thesis
  proof (cases "hit uw A pw s")
    case None
    then show ?thesis using Cons by simp
  next
    case (Some t)
    then have "t \<in> set targets" "token_here uw t pw s"
      by (simp_all add: hit_Some)
    then have "is_word uw c"
      using Cons by (auto simp: targets_def token_here_iff codes)
    then show ?thesis using Some Cons by (simp add: logger_Info_code)
  qed
qed

lemma hit_None_True: "hit uw A True s = None"
  by (simp add: hit_None token_here_def)

lemma scan_inside:
  assumes "t \<in> set targets" "\<not> next_is_word uw r"
  shows "scan uw A True (tl t @ r) = tl t @ scan uw A True r"
  using assms
  by (auto simp: targets_def codes hit_None_True hit_None_hd)

lemma scan_token:
  assumes "t \<in> set targets" "token_here uw t pw s" "hit uw A pw s = None"
  shows "scan uw A pw s = t @ scan uw A True (drop (length t) s)"
proof -
  from assms(2) obtain r where r: "s = t @ r" "\<not> next_is_word uw r"
    by (auto simp: token_here_iff)
  have "t \<noteq> []" "is_word uw (hd t)"
    using targets_word [OF assms(1), of uw] by simp_all
  then obtain c where c: "t = c # tl t" "is_word uw c"
    by (cases t) auto
  have s: "s = c # (tl t @ r)"
    using r(1) c(1) by (metis append_Cons)
  have "scan uw A pw s = c # scan uw A True (tl t @ r)"
    using assms(3) c(2) unfolding s by simp
  also have "\<dots> = c # tl t @ scan uw A True r"
    using scan_inside [OF assms(1) r(2)] by simp
  also have "\<dots> = t @ scan uw A True r"
    using c(1) by (metis append_Cons)
  finally show ?thesis
    using r(1) by simp
qed

lemma scan_prefix_inv:
  assumes "scan uw A pw s = p @ Y"
    and "\<forall>k<length p. \<forall>Z. drop k p @ Y \<noteq> logger_Info @ Z"
  shows "\<exists>r. s = p @ r \<and> Y = scan uw A (if p = [] then pw else is_word uw (last p)) r"
  using assms
proof (induction p arbitrary: s pw)
  case Nil
  then show ?case by simp
next
  case (Cons c p)
  from Cons.prems(1) obtain x xs where s: "s = x # xs"
    by (cases s) auto
  have nohit: "hit uw A pw s = None"
  proof (cases "hit uw A pw s")
    case (Some t)
    then have "scan uw A pw s = logger_Info @ scan uw A True (drop (length t - 1) xs)"
      using s by simp
    moreover have "drop 0 (c # p) @ Y \<noteq> logger_Info @ scan uw A True (drop (length t - 1) xs)"
      using Cons.prems(2) by (metis length_greater_0_conv list.distinct(1))
    ultimately show ?thesis using Cons.prems(1) by simp
  qed simp
  then have eq: "x = c" "scan uw A (is_word uw x) xs = p @ Y"
    using Cons.prems(1) s by auto
  have "\<forall>k<length p. \<forall>Z. drop k p @ Y \<noteq> logger_Info @ Z"
  proof (intro allI impI)
    fix k Z
    assume "k < length p"
    then have "Suc k < length (c # p)" by simp
    with Cons.prems(2) have "drop (Suc k) (c # p) @ Y \<noteq> logger_Info @ Z" by blast
    then show "drop k p @ Y \<noteq> logger_Info @ Z" by simp
  qed
  from Cons.IH [OF eq(2) this] obtain r where
    "xs = p @ r" "Y = scan uw A (if p = [] then is_word uw x else is_word uw (last p)) r"
    by blast
  then show ?case using s eq by auto
qed

lemma token_clash:
  assumes "t \<in> set targets"
  shows "\<forall>k<length t. \<forall>Z. drop k t @ Y \<noteq> logger_Info @ Z"
proof -
  have "\<forall>k<length log_Printf. \<forall>Z. drop k log_Printf @ Y \<noteq> logger_Info @ Z"
    by (simp add: codes All_less_Suc)
  moreover have "\<forall>k<length log_Println. \<forall>Z. drop k log_Println @ Y \<noteq> logger_Info @ Z"
    by (simp add: codes All_less_Suc)
  moreover have "\<forall>k<length log_Print. \<forall>Z. drop k log_Print @ Y \<noteq> logger_Info @ Z"
    by (simp add: codes All_less_Suc)
  ultimately show ?thesis
    using assms by (auto simp: targets_def)
qed

lemma scan_reflect:
  assumes "t \<in> set targets" "token_here uw t pw (scan uw A pw s)"
  shows "token_here uw t pw s"
proof -
  from assms(2) obtain Y where Y: "scan uw A pw s = t @ Y" "\<not> next_is_word uw Y" "\<not> pw"
    by (auto simp: token_here_iff)
  from scan_prefix_inv [OF Y(1) token_clash [OF assms(1)]]
  obtain r where r: "s = t @ r" "Y = scan uw A (if t = [] then pw else is_word uw (last t)) r"
    by blast
  then have "\<not> next_is_word uw r"
    using Y(2) by simp
  then show ?thesis using r Y by simp
qed

lemma scan_Cons_miss:
  "hit uw A pw (c # cs) = None \<Longrightarrow> scan uw A pw (c # cs) = c # scan uw A (is_word uw c) cs"
  by simp

lemma scan_hit:
  assumes "hit uw A pw s = Some t"
  shows "scan uw A pw s = logger_Info @ scan uw A True (drop (length t) s)"
proof -
  from assms have t: "t \<in> set targets" "token_here uw t pw s"
    by (simp_all add: hit_Some)
  then have "t \<noteq> []" using targets_word by blast
  with t(2) obtain c cs where s: "s = c # cs"
    by (cases s) (auto simp: token_here_def)
  have "drop (length t - 1) cs = drop (length t) s"
    using \<open>t \<noteq> []\<close> s by (cases t) auto
  then show ?thesis using assms s by simp
qed

lemma scan_scan: "scan uw B pw (scan uw A pw s) = scan uw (A @ B) pw s"
proof (induction s arbitrary: pw rule: length_induct)
  case (1 s)
  show ?case
  proof (cases s)
    case Nil
    then show ?thesis by simp
  next
    case (Cons c cs)
    show ?thesis
    proof (cases "hit uw A pw s")
      case (Some t)
      then have t: "t \<in> set targets" "t \<in> set A" "token_here uw t pw s"
        by (simp_all add: hit_Some)
      then have AB: "hit uw (A @ B) pw s = Some t"
        by (simp add: hit_Some)
      have "t \<noteq> []" using t(1) targets_word by blast
      then have len: "length (drop (length t) s) < length s"
        using Cons by simp
      show ?thesis
        using 1 [rule_format, OF len]
        by (simp add: scan_hit [OF Some] scan_hit [OF AB] scan_chew)
    next
      case None
      note A = this
      show ?thesis
      proof (cases "hit uw B pw s")
        case (Some t)
        then have t: "t \<in> set targets" "t \<in> set B" "token_here uw t pw s"
          by (simp_all add: hit_Some)
        then have AB: "hit uw (A @ B) pw s = Some t"
          by (simp add: hit_Some)
        have "t \<noteq> []" using t(1) targets_word by blast
        then have len: "length (drop (length t) s) < length s"
          using Cons by simp
        have "\<not> pw" using t(3) by (simp add: token_here_def)
        have "\<not> next_is_word uw (drop (length t) s)"
          using t(3) by (simp add: token_here_def)
        then have "token_here uw t pw (t @ scan uw A True (drop (length t) s))"
          using \<open>\<not> pw\<close> by simp
        then have "hit uw B pw (t @ scan uw A True (drop (length t) s)) = Some t"
          using t by (simp add: hit_Some)
        from scan_hit [OF this]
        have "scan uw B pw (scan uw A pw s) =
                logger_Info @ scan uw B True (scan uw A True (drop (length t) s))"
          by (simp add: scan_token [OF t(1) t(3) A])
        then show ?thesis
          using 1 [rule_format, OF len] by (simp add: scan_hit [OF AB])
      next
        case None
        have AB: "hit uw (A @ B) pw s = None"
          using A None by (auto simp: hit_None)
        have sA: "scan uw A pw s = c # scan uw A (is_word uw c) cs"
          using A Cons by simp
        have "hit uw B pw (scan uw A pw s) = None"
          using None scan_reflect [of _ uw pw A s] by (auto simp: hit_None)
        then have "scan uw B pw (scan uw A pw s) =
                     c # scan uw B (is_word uw c) (scan uw A (is_word uw c) cs)"
          unfolding sA by simp
        then show ?thesis
          using 1 [rule_format, of cs] AB Cons by simp
      qed
    qed
  qed
qed

lemma migrate_content_scan: "migrate_content uw s = scan uw targets False s"
  by (simp add: migrate_content_def Let_def re_sub_scan targets_def scan_scan)

lemma next_is_word_drop: "next_is_word uw (drop k s) = ident_after uw s k"
proof (cases "k < length s")
  case True
  then have "drop k s = s ! k # drop (Suc k) s"
    by (simp add: Cons_nth_drop_Suc)
  then show ?thesis using True by (simp add: ident_after_def)
next
  case False
  then show ?thesis by (simp add: ident_after_def)
qed

lemma token_here_whole:
  "token_here uw t (ident_before uw s i) (drop i s) = whole_token_at uw s i t"
  by (auto simp: token_here_def whole_token_at_def occurs_at_def next_is_word_drop add.commute)

lemma targets_distinct: "distinct targets"
  by (simp add: targets_def codes)

lemma filter_hit:
  "filter (whole_token_at uw s i) targets =
     (case hit uw targets (ident_before uw s i) (drop i s) of None \<Rightarrow> [] | Some t \<Rightarrow> [t])"
proof (cases "hit uw targets (ident_before uw s i) (drop i s)")
  case None
  then have "\<forall>t \<in> set targets. \<not> whole_token_at uw s i t"
    by (simp add: hit_None token_here_whole)
  then have "filter (whole_token_at uw s i) targets = []"
    by (simp add: filter_empty_conv)
  then show ?thesis using None by simp
next
  case (Some t)
  then have t: "t \<in> set targets" "whole_token_at uw s i t"
    by (simp_all add: hit_Some token_here_whole)
  have "whole_token_at uw s i t' \<longleftrightarrow> t' = t" if "t' \<in> set targets" for t'
    using token_here_unique [OF that t(1), of uw "ident_before uw s i" "drop i s"] t(2)
    by (auto simp: token_here_whole)
  then have "filter (whole_token_at uw s i) targets = filter (\<lambda>t'. t' = t) targets"
    by (auto intro: filter_cong)
  also have "\<dots> = [t]"
    using t(1) targets_distinct by (auto simp: targets_def)
  finally show ?thesis using Some by simp
qed

lemma splice_Cons:
  assumes "\<forall>p \<in> set os. pos < fst p"
  shows "splice pos (c # cs) os = c # splice (Suc pos) cs os"
proof (cases os)
  case Nil
  then show ?thesis by simp
next
  case (Cons p ps)
  obtain i t where p: "p = (i, t)" by (cases p)
  then have "pos < i" using assms Cons by simp
  then obtain d where d: "i - pos = Suc d" "i - Suc pos = d"
    by (metis Suc_diff_Suc)
  show ?thesis
    unfolding Cons p by (simp add: d)
qed

lemma occurrences_from_fst: "p \<in> set (occurrences_from uw s k) \<Longrightarrow> k \<le> fst p"
  by (auto simp: occurrences_from_def)

lemma occurrences_from_step:
  assumes "k < length s"
  shows "occurrences_from uw s k =
           map (Pair k) (filter (whole_token_at uw s k) targets) @ occurrences_from uw s (Suc k)"
  using assms by (simp add: occurrences_from_def upt_conv_Cons)

lemma token_interior:
  assumes "t \<in> set targets"
  shows "\<forall>k<length t. 0 < k \<longrightarrow> t ! k = 108 \<longrightarrow> is_word uw (t ! (k - 1))"
proof -
  have "\<forall>k<length log_Printf. 0 < k \<longrightarrow> log_Printf ! k = 108 \<longrightarrow> is_word uw (log_Printf ! (k - 1))"
    by (simp add: codes All_less_Suc)
  moreover have "\<forall>k<length log_Println. 0 < k \<longrightarrow> log_Println ! k = 108 \<longrightarrow> is_word uw (log_Println ! (k - 1))"
    by (simp add: codes All_less_Suc)
  moreover have "\<forall>k<length log_Print. 0 < k \<longrightarrow> log_Print ! k = 108 \<longrightarrow> is_word uw (log_Print ! (k - 1))"
    by (simp add: codes All_less_Suc)
  ultimately show ?thesis
    using assms by (auto simp: targets_def)
qed

lemma targets_hd: "t \<in> set targets \<Longrightarrow> \<exists>u. t = 108 # u"
  by (auto simp: targets_def codes)

lemma occurs_at_nth:
  assumes "occurs_at s i t" "k < length t"
  shows "i + k < length s \<and> s ! (i + k) = t ! k"
proof -
  from assms(1) have eq: "take (length t) (drop i s) = t"
    by (simp add: occurs_at_def)
  have "length (take (length t) (drop i s)) \<le> length (drop i s)"
    by simp
  then have "length t \<le> length (drop i s)"
    unfolding eq .
  then have len: "i + k < length s" using assms(2) by simp
  have "t ! k = take (length t) (drop i s) ! k" using eq by simp
  also have "\<dots> = s ! (i + k)" using assms(2) len by simp
  finally show ?thesis using len by simp
qed

lemma no_token_inside:
  assumes "t \<in> set targets" "occurs_at s i t" "0 < k" "k < length t" "t' \<in> set targets"
  shows "\<not> whole_token_at uw s (i + k) t'"
proof
  assume w: "whole_token_at uw s (i + k) t'"
  obtain u where u: "t' = 108 # u" using targets_hd [OF assms(5)] by blast
  from w have "occurs_at s (i + k) t'" by (simp add: whole_token_at_def)
  from occurs_at_nth [OF this, of 0] u have "s ! (i + k) = 108" by simp
  then have "t ! k = 108" using occurs_at_nth [OF assms(2,4)] by simp
  then have "is_word uw (t ! (k - 1))"
    using token_interior [OF assms(1), of uw] assms(3,4) by blast
  moreover have "s ! (i + (k - 1)) = t ! (k - 1)"
    using occurs_at_nth [OF assms(2), of "k - 1"] assms(3,4) by simp
  ultimately have "ident_before uw s (i + k)"
    using assms(3) by (simp add: ident_before_def)
  with w show False by (simp add: whole_token_at_def)
qed

lemma occurrences_from_skip:
  assumes "t \<in> set targets" "occurs_at s i t"
  shows "occurrences_from uw s (Suc i) = occurrences_from uw s (i + length t)"
proof -
  have len: "i + length t \<le> length s"
    using occurs_at_nth [OF assms(2), of "length t - 1"] targets_word [OF assms(1), of uw]
    by (cases t) auto
  have "Suc i \<le> i + length t"
    using targets_word [OF assms(1), of uw] by (cases t) auto
  then have "[Suc i..<length s] = [Suc i..<i + length t] @ [i + length t..<length s]"
    using len by (metis le_Suc_ex upt_add_eq_append)
  moreover have "filter (whole_token_at uw s j) targets = []" if "j \<in> set [Suc i..<i + length t]" for j
  proof -
    from that have j: "i < j" "j < i + length t" by simp_all
    define k where "k = j - i"
    have "j = i + k" "0 < k" "k < length t"
      using j by (simp_all add: k_def)
    then show ?thesis
      using no_token_inside [OF assms] by (simp add: filter_empty_conv)
  qed
  ultimately show ?thesis
    by (simp add: occurrences_from_def)
qed

lemma ident_before_Suc: "i < length s \<Longrightarrow> ident_before uw s (Suc i) = is_word uw (s ! i)"
  by (simp add: ident_before_def)

lemma ident_before_after_token:
  assumes "t \<in> set targets" "occurs_at s i t"
  shows "ident_before uw s (i + length t)"
proof -
  have t: "t \<noteq> []" "is_word uw (last t)"
    using targets_word [OF assms(1), of uw] by simp_all
  then have "s ! (i + (length t - 1)) = t ! (length t - 1)"
    using occurs_at_nth [OF assms(2), of "length t - 1"] by simp
  moreover have "i + (length t - 1) = i + length t - 1"
    using t by (cases t) simp_all
  ultimately have "is_word uw (s ! (i + length t - 1))"
    using t by (simp add: last_conv_nth)
  then show ?thesis using t by (simp add: ident_before_def)
qed

lemma scan_splice_from:
  "i \<le> length s \<Longrightarrow>
   scan uw targets (ident_before uw s i) (drop i s) = splice i (drop i s) (occurrences_from uw s i)"
proof (induction "length s - i" arbitrary: i rule: less_induct)
  case less
  show ?case
  proof (cases "i < length s")
    case False
    then show ?thesis by (simp add: occurrences_from_def)
  next
    case True
    then have d: "drop i s = s ! i # drop (Suc i) s"
      by (simp add: Cons_nth_drop_Suc)
    show ?thesis
    proof (cases "hit uw targets (ident_before uw s i) (drop i s)")
      case None
      then have occ: "occurrences_from uw s i = occurrences_from uw s (Suc i)"
        using True by (simp add: occurrences_from_step filter_hit)
      have "\<forall>p \<in> set (occurrences_from uw s (Suc i)). i < fst p"
        using occurrences_from_fst [of _ uw s "Suc i"] by (auto simp: Suc_le_eq)
      then have "splice i (drop i s) (occurrences_from uw s i) =
                   s ! i # splice (Suc i) (drop (Suc i) s) (occurrences_from uw s (Suc i))"
        unfolding occ d by (rule splice_Cons)
      moreover have "scan uw targets (ident_before uw s i) (drop i s) =
                       s ! i # scan uw targets (ident_before uw s (Suc i)) (drop (Suc i) s)"
        using None True unfolding d by (simp add: ident_before_Suc)
      moreover have "scan uw targets (ident_before uw s (Suc i)) (drop (Suc i) s) =
                       splice (Suc i) (drop (Suc i) s) (occurrences_from uw s (Suc i))"
        using True by (intro less) simp_all
      ultimately show ?thesis by simp
    next
      case (Some t)
      then have t: "t \<in> set targets" "whole_token_at uw s i t"
        by (simp_all add: hit_Some token_here_whole)
      then have o: "occurs_at s i t" by (simp add: whole_token_at_def)
      have tne: "t \<noteq> []" using targets_word [OF t(1), of uw] by simp
      have len: "i + length t \<le> length s"
        using occurs_at_nth [OF o, of "length t - 1"] tne by (cases t) auto
      have occ: "occurrences_from uw s i = (i, t) # occurrences_from uw s (i + length t)"
        using True Some occurrences_from_skip [OF t(1) o, of uw]
        by (simp add: occurrences_from_step filter_hit)
      have "scan uw targets (ident_before uw s i) (drop i s) =
              logger_Info @ scan uw targets True (drop (i + length t) s)"
        using scan_hit [OF Some] by (simp add: add.commute)
      moreover have "scan uw targets (ident_before uw s (i + length t)) (drop (i + length t) s) =
                       splice (i + length t) (drop (i + length t) s) (occurrences_from uw s (i + length t))"
      proof (intro less)
        have "0 < length t" using tne by simp
        then show "length s - (i + length t) < length s - i"
          using True len by arith
      qed (rule len)
      ultimately show ?thesis
        using ident_before_after_token [OF t(1) o, of uw]
        by (simp add: occ add.commute)
    qed
  qed
qed

lemma migrate_content_splice: "migrate_content uw s = splice 0 s (occurrences uw s)"
  using scan_splice_from [of 0 s uw]
  by (simp add: migrate_content_scan occurrences_def ident_before_def)

lemma occurrences_from_mem:
  "(i, t) \<in> set (occurrences_from uw s k) \<longleftrightarrow>
     k \<le> i \<and> i < length s \<and> t \<in> set targets \<and> whole_token_at uw s i t"
  by (auto simp: occurrences_from_def)

lemma occurrences_mem:
  "(i, t) \<in> set (occurrences uw s) \<longleftrightarrow>
     i < length s \<and> t \<in> set targets \<and> whole_token_at uw s i t"
  by (simp add: occurrences_def occurrences_from_mem)

lemma occurs_at_split: "occurs_at s i t \<Longrightarrow> s = take i s @ t @ drop (i + length t) s"
proof -
  assume "occurs_at s i t"
  then have "take (length t) (drop i s) = t" by (simp add: occurs_at_def)
  then have "drop i s = t @ drop (length t) (drop i s)"
    by (metis append_take_drop_id)
  then have "take i s @ drop i s = take i s @ t @ drop (i + length t) s"
    by (simp add: add.commute)
  then show ?thesis by simp
qed

lemma hit_Nil_list: "hit uw [] pw s = None"
  by (simp add: hit_None)

lemma scan_Nil_list: "scan uw [] pw s = s"
  by (induction s arbitrary: pw) (simp_all add: hit_Nil_list)

lemma scan_set_cong: "set A = set B \<Longrightarrow> scan uw A pw s = scan uw B pw s"
proof (induction uw A pw s rule: scan.induct)
  case (1 uw A pw)
  then show ?case by simp
next
  case (2 uw A pw c cs)
  have h: "hit uw A pw (c # cs) = hit uw B pw (c # cs)"
    using 2(3) by (simp add: hit_def)
  show ?case
  proof (cases "hit uw A pw (c # cs)")
    case None
    then show ?thesis using 2(1) [OF None 2(3)] h by simp
  next
    case (Some t)
    then show ?thesis using 2(2) [OF Some 2(3)] h by simp
  qed
qed

lemma apply_rules_scan:
  "set order \<subseteq> set targets \<Longrightarrow> apply_rules uw order s = scan uw order False s"
proof (induction order rule: rev_induct)
  case Nil
  then show ?case by (simp add: apply_rules_def scan_Nil_list)
next
  case (snoc t order)
  then have "apply_rules uw order s = scan uw order False s" by simp
  then have "apply_rules uw (order @ [t]) s = re_sub uw (word_pattern t) logger_Info False (scan uw order False s)"
    by (simp add: apply_rules_def)
  also have "\<dots> = scan uw [t] False (scan uw order False s)"
    using snoc.prems by (simp add: re_sub_scan)
  finally show ?case by (simp add: scan_scan)
qed

lemma apply_rules_migrate:
  "set order = set targets \<Longrightarrow> apply_rules uw order s = migrate_content uw s"
  using scan_set_cong [of order targets uw False s]
  by (simp add: apply_rules_scan migrate_content_scan)

section \<open>The substitutions\<close>

text \<open>
  Claim C4. For every input string, applying the three whole-token substitutions in any
  of the six possible orders yields the string that the script's own order yields.
\<close>

theorem order_independent:
  "apply_rules uw [log_Printf, log_Println, log_Print] s = migrate_content uw s \<and>
   apply_rules uw [log_Printf, log_Print, log_Println] s = migrate_content uw s \<and>
   apply_rules uw [log_Println, log_Printf, log_Print] s = migrate_content uw s \<and>
   apply_rules uw [log_Println, log_Print, log_Printf] s = migrate_content uw s \<and>
   apply_rules uw [log_Print, log_Printf, log_Println] s = migrate_content uw s \<and>
   apply_rules uw [log_Print, log_Println, log_Printf] s = migrate_content uw s"
proof -
  have "apply_rules uw [log_Printf, log_Println, log_Print] s = migrate_content uw s"
    by (rule apply_rules_migrate) (auto simp: targets_def)
  moreover have "apply_rules uw [log_Printf, log_Print, log_Println] s = migrate_content uw s"
    by (rule apply_rules_migrate) (auto simp: targets_def)
  moreover have "apply_rules uw [log_Println, log_Printf, log_Print] s = migrate_content uw s"
    by (rule apply_rules_migrate) (auto simp: targets_def)
  moreover have "apply_rules uw [log_Println, log_Print, log_Printf] s = migrate_content uw s"
    by (rule apply_rules_migrate) (auto simp: targets_def)
  moreover have "apply_rules uw [log_Print, log_Printf, log_Println] s = migrate_content uw s"
    by (rule apply_rules_migrate) (auto simp: targets_def)
  moreover have "apply_rules uw [log_Print, log_Println, log_Printf] s = migrate_content uw s"
    by (rule apply_rules_migrate) (auto simp: targets_def)
  ultimately show ?thesis by blast
qed

subsection \<open>The output has no whole token left\<close>

lemma hit_not_fixed:
  assumes "hit uw A pw x = Some t"
  shows "scan uw A pw x \<noteq> x"
proof -
  from assms have t: "t \<in> set targets" "token_here uw t pw x"
    by (simp_all add: hit_Some)
  then obtain r where "x = t @ r" by (auto simp: token_here_iff)
  moreover have "logger_Info @ Z \<noteq> t @ r" for Z
    using token_clash [OF t(1), of r] targets_word [OF t(1), of uw]
    by (metis drop0 length_greater_0_conv)
  ultimately show ?thesis
    using scan_hit [OF assms] by metis
qed

lemma fixed_no_occurrence:
  "k \<le> length x \<Longrightarrow> scan uw targets (ident_before uw x k) (drop k x) = drop k x \<Longrightarrow>
   occurrences_from uw x k = []"
proof (induction "length x - k" arbitrary: k rule: less_induct)
  case less
  show ?case
  proof (cases "k < length x")
    case False
    then show ?thesis by (simp add: occurrences_from_def)
  next
    case True
    then have d: "drop k x = x ! k # drop (Suc k) x"
      by (simp add: Cons_nth_drop_Suc)
    have n: "hit uw targets (ident_before uw x k) (drop k x) = None"
      using hit_not_fixed [of uw targets "ident_before uw x k" "drop k x"] less.prems(2)
      by (cases "hit uw targets (ident_before uw x k) (drop k x)") auto
    then have "scan uw targets (ident_before uw x k) (drop k x) =
                 x ! k # scan uw targets (ident_before uw x (Suc k)) (drop (Suc k) x)"
      using True unfolding d by (simp add: ident_before_Suc)
    then have "scan uw targets (ident_before uw x (Suc k)) (drop (Suc k) x) = drop (Suc k) x"
      using less.prems(2) d by simp
    then have "occurrences_from uw x (Suc k) = []"
      using True by (intro less) simp_all
    then show ?thesis
      using True n by (simp add: occurrences_from_step filter_hit)
  qed
qed

lemma migrated_no_occurrence: "occurrences uw (migrate_content uw s) = []"
proof -
  have "scan uw targets False (scan uw targets False s) = scan uw (targets @ targets) False s"
    by (rule scan_scan)
  also have "\<dots> = scan uw targets False s"
    by (rule scan_set_cong) simp
  finally show ?thesis
    using fixed_no_occurrence [of 0 "scan uw targets False s" uw]
    by (simp add: migrate_content_scan occurrences_def ident_before_def)
qed

text \<open>
  Claim C5. The content transformation is idempotent: migrating the output of a
  migration changes nothing, because the output has no whole-token occurrence of a
  target left. In particular the text \<^verbatim>\<open>logger.Info\<close> has none and is returned as it
  is: none of the three rules matches in it.
\<close>

theorem migrate_idempotent:
  "migrate_content uw (migrate_content uw s) = migrate_content uw s \<and>
   occurrences uw (migrate_content uw s) = [] \<and>
   migrate_content uw logger_Info = logger_Info \<and>
   occurrences uw logger_Info = []"
proof -
  have n: "occurrences uw (migrate_content uw s) = []" for s
    by (rule migrated_no_occurrence)
  then have "migrate_content uw (migrate_content uw s) = migrate_content uw s"
    by (simp add: migrate_content_splice [of uw "migrate_content uw s"])
  moreover have l: "migrate_content uw logger_Info = logger_Info"
    using scan_chew [of uw targets False "[]"] by (simp add: migrate_content_scan)
  moreover have "occurrences uw logger_Info = []"
    using n [of logger_Info] by (simp add: l)
  ultimately show ?thesis using n by blast
qed

text \<open>
  Claim C1, as stated with the glossary's whole-token occurrences, fails: the text
  \<^verbatim>\<open>x.log.Printf log.Print(1)\<close> has exactly one of them, \<^verbatim>\<open>log.Print\<close> at index 13 (the
  other occurrence is preceded by a dot), yet the script replaces both, so the output is
  not the input with that one occurrence replaced.
\<close>

theorem one_glossary_occurrence_counterexample:
  "glossary_occurrences ascii_table (py ''x.log.Printf log.Print(1)'') = [(13, log_Print)] \<and>
   migrate_content ascii_table (py ''x.log.Printf log.Print(1)'') = py ''x.logger.Info logger.Info(1)'' \<and>
   take 13 (py ''x.log.Printf log.Print(1)'') @ logger_Info @
     drop (13 + length log_Print) (py ''x.log.Printf log.Print(1)'') = py ''x.log.Printf logger.Info(1)'' \<and>
   migrate_content ascii_table (py ''x.log.Printf log.Print(1)'') \<noteq>
     take 13 (py ''x.log.Printf log.Print(1)'') @ logger_Info @
     drop (13 + length log_Print) (py ''x.log.Printf log.Print(1)'')"
  by code_simp

text \<open>
  Claim C1, amended. When the input has exactly one occurrence of a target that is a
  whole token for the script's patterns (neither immediately preceded nor immediately
  followed by a letter, a digit or an underscore; a dot is no such character), at index
  \<open>i\<close> with token \<open>t\<close>, the output is the input with \<^verbatim>\<open>logger.Info\<close> in place of that
  occurrence and every other character unchanged.
\<close>

theorem single_occurrence_replaced:
  assumes "occurrences uw s = [(i, t)]"
  shows "t \<in> set targets \<and> s = take i s @ t @ drop (i + length t) s \<and>
         migrate_content uw s = take i s @ logger_Info @ drop (i + length t) s"
proof -
  have "(i, t) \<in> set (occurrences uw s)" using assms by simp
  then have t: "t \<in> set targets" "whole_token_at uw s i t"
    by (simp_all add: occurrences_mem)
  then have "s = take i s @ t @ drop (i + length t) s"
    by (intro occurs_at_split) (simp add: whole_token_at_def)
  moreover have "migrate_content uw s = take i s @ logger_Info @ drop (i + length t) s"
    by (simp add: migrate_content_splice assms)
  ultimately show ?thesis using t(1) by blast
qed

theorem single_occurrence_replaced_witness:
  "occurrences ascii_table (py ''a log.Printf(x)'') = [(2, log_Printf)] \<and>
   migrate_content ascii_table (py ''a log.Printf(x)'') = py ''a logger.Info(x)''"
proof -
  have h: "occurrences ascii_table (py ''a log.Printf(x)'') = [(2, log_Printf)]"
    by code_simp
  have "take 2 (py ''a log.Printf(x)'') @ logger_Info @ drop (2 + length log_Printf) (py ''a log.Printf(x)'') = py ''a logger.Info(x)''"
    by code_simp
  then show ?thesis
    using h single_occurrence_replaced [OF h] by simp
qed

subsection \<open>Occurrences that are not whole tokens\<close>

lemma token_l_inside:
  assumes "t \<in> set targets"
  shows "\<forall>k<length t. 0 < k \<longrightarrow> t ! k = 108 \<longrightarrow> Suc k < length t \<and> t ! Suc k \<noteq> 111"
proof -
  have "\<forall>k<length log_Printf. 0 < k \<longrightarrow> log_Printf ! k = 108 \<longrightarrow> Suc k < length log_Printf \<and> log_Printf ! Suc k \<noteq> 111"
    by (simp add: codes All_less_Suc)
  moreover have "\<forall>k<length log_Println. 0 < k \<longrightarrow> log_Println ! k = 108 \<longrightarrow> Suc k < length log_Println \<and> log_Println ! Suc k \<noteq> 111"
    by (simp add: codes All_less_Suc)
  moreover have "\<forall>k<length log_Print. 0 < k \<longrightarrow> log_Print ! k = 108 \<longrightarrow> Suc k < length log_Print \<and> log_Print ! Suc k \<noteq> 111"
    by (simp add: codes All_less_Suc)
  ultimately show ?thesis
    using assms by (auto simp: targets_def)
qed

lemma token_second: "t \<in> set targets \<Longrightarrow> 1 < length t \<and> t ! 0 = 108 \<and> t ! 1 = 111"
  by (auto simp: targets_def codes)

lemma no_overlap_text:
  assumes "t \<in> set targets" "t' \<in> set targets" "occurs_at s j t'" "occurs_at s (j + k) t"
    and "0 < k" "k < length t'"
  shows False
proof -
  have t: "1 < length t" "t ! 0 = 108" "t ! 1 = 111"
    using token_second [OF assms(1)] by simp_all
  have "0 < length t" "1 < length t" using t(1) by (cases t; simp)+
  note n0 = occurs_at_nth [OF assms(4) this(1)] and n1 = occurs_at_nth [OF assms(4) this(2)]
  have "s ! (j + k) = 108"
    using n0 t by simp
  then have "t' ! k = 108"
    using occurs_at_nth [OF assms(3,6)] by simp
  then have k: "Suc k < length t'" "t' ! Suc k \<noteq> 111"
    using token_l_inside [OF assms(2)] assms(5,6) by blast+
  have "s ! (j + Suc k) = t' ! Suc k"
    using occurs_at_nth [OF assms(3) k(1)] by simp
  moreover have "s ! (j + k + 1) = 111"
    using n1 t by simp
  ultimately show False using k(2) by simp
qed

lemma spans_disjoint:
  assumes "t \<in> set targets" "occurs_at s i t"
    and "\<forall>t' \<in> set targets. \<not> whole_token_at uw s i t'"
    and "p \<in> set (occurrences uw s)"
  shows "fst p + length (snd p) \<le> i \<or> i + length t \<le> fst p"
proof (rule ccontr)
  assume neg: "\<not> (fst p + length (snd p) \<le> i \<or> i + length t \<le> fst p)"
  obtain j t' where p: "p = (j, t')" by (cases p)
  from assms(4) have t': "t' \<in> set targets" "whole_token_at uw s j t'"
    unfolding p by (simp_all add: occurrences_mem)
  then have o': "occurs_at s j t'" by (simp add: whole_token_at_def)
  from neg have ov: "i < j + length t'" "j < i + length t"
    unfolding p by simp_all
  consider "j = i" | "j < i" | "i < j" by arith
  then show False
  proof cases
    case 1
    then show ?thesis using t' assms(3) by blast
  next
    case 2
    define k where "k = i - j"
    have "i = j + k" "0 < k" "k < length t'"
      using 2 ov by (simp_all add: k_def)
    then show ?thesis
      using no_overlap_text [OF assms(1) t'(1) o', of k] assms(2) by simp
  next
    case 3
    define k where "k = j - i"
    have "j = i + k" "0 < k" "k < length t"
      using 3 ov by (simp_all add: k_def)
    then show ?thesis
      using no_token_inside [OF assms(1,2) _ _ t'(1), of k uw] t'(2) by simp
  qed
qed


lemma embedded_not_whole:
  assumes "ident_before uw s i \<or> ident_after uw s (i + length t)"
  shows "\<not> whole_token_at uw s i t"
  using assms by (auto simp: whole_token_at_def)











text \<open>
  Claim C3, as stated with the glossary's identifier characters (the dot among them),
  fails: in \<^verbatim>\<open>x.log.Printf\<close> the occurrence is immediately preceded by a dot, yet it
  is a whole-token match for the script's pattern and it is replaced.
\<close>

theorem dot_neighbour_counterexample:
  "occurs_at (py ''x.log.Printf'') 2 log_Printf \<and>
   glossary_before ascii_table (py ''x.log.Printf'') 2 \<and>
   whole_token_at ascii_table (py ''x.log.Printf'') 2 log_Printf \<and>
   migrate_content ascii_table (py ''x.log.Printf'') = py ''x.logger.Info'' \<and>
   \<not> occurs_at (migrate_content ascii_table (py ''x.log.Printf'')) 2 log_Printf"
  by code_simp

lemma match_word_pattern_target:
  "t \<in> set targets \<Longrightarrow>
   match_atoms uw (word_pattern t) pw s =
     (if token_here uw t pw s then Some (True, drop (length t) s) else None)"
  using targets_word [of t uw] by (intro match_word_pattern) simp_all

text \<open>
  Claim C3, amended. An occurrence of a target immediately preceded or followed by a
  letter, a digit or an underscore (the dot is not such a character) is not a whole-token
  match: the target's own pattern does not match there. It is left unaltered, no replaced
  span overlapping it, unless it is \<^verbatim>\<open>log.Print\<close> at the start of a whole-token
  \<^verbatim>\<open>log.Printf\<close> or \<^verbatim>\<open>log.Println\<close>.
\<close>

theorem word_neighbour_not_matched:
  assumes "t \<in> set targets" "occurs_at s i t"
    and "ident_before uw s i \<or> ident_after uw s (i + length t)"
  shows "match_atoms uw (word_pattern t) (ident_before uw s i) (drop i s) = None \<and>
         \<not> whole_token_at uw s i t \<and>
         ((\<forall>t' \<in> set targets. \<not> whole_token_at uw s i t') \<longrightarrow>
          migrate_content uw s = splice 0 s (occurrences uw s) \<and>
          (\<forall>p \<in> set (occurrences uw s). fst p + length (snd p) \<le> i \<or> i + length t \<le> fst p))"
proof -
  have nw: "\<not> whole_token_at uw s i t"
    using embedded_not_whole [OF assms(3)] .
  then have "match_atoms uw (word_pattern t) (ident_before uw s i) (drop i s) = None"
    by (simp add: match_word_pattern_target [OF assms(1)] token_here_whole)
  moreover have "fst p + length (snd p) \<le> i \<or> i + length t \<le> fst p"
    if "\<forall>t' \<in> set targets. \<not> whole_token_at uw s i t'" "p \<in> set (occurrences uw s)" for p
    using spans_disjoint [OF assms(1,2) that] .
  ultimately show ?thesis
    using nw migrate_content_splice [of uw s] by blast
qed

theorem word_neighbour_not_matched_witness:
  "log_Printf \<in> set targets \<and>
   occurs_at (py ''x.log.PrintfExtra(1)'') 2 log_Printf \<and>
   ident_after ascii_table (py ''x.log.PrintfExtra(1)'') (2 + length log_Printf) \<and>
   \<not> whole_token_at ascii_table (py ''x.log.PrintfExtra(1)'') 2 log_Printf \<and>
   \<not> whole_token_at ascii_table (py ''x.log.PrintfExtra(1)'') 2 log_Println \<and>
   \<not> whole_token_at ascii_table (py ''x.log.PrintfExtra(1)'') 2 log_Print \<and>
   match_atoms ascii_table (word_pattern log_Printf)
     (ident_before ascii_table (py ''x.log.PrintfExtra(1)'') 2)
     (drop 2 (py ''x.log.PrintfExtra(1)'')) = None \<and>
   migrate_content ascii_table (py ''x.log.PrintfExtra(1)'') = py ''x.log.PrintfExtra(1)''"
proof -
  let ?s = "py ''x.log.PrintfExtra(1)''"
  have h1: "log_Printf \<in> set targets" by (simp add: targets_def)
  have h2: "occurs_at ?s 2 log_Printf" by code_simp
  have h3: "ident_after ascii_table ?s (2 + length log_Printf)" by code_simp
  have h4: "\<forall>t' \<in> set targets. \<not> whole_token_at ascii_table ?s 2 t'" by code_simp
  have o: "occurrences ascii_table ?s = []" by code_simp
  from word_neighbour_not_matched [OF h1 h2 disjI2 [OF h3]] h4
  have "match_atoms ascii_table (word_pattern log_Printf) (ident_before ascii_table ?s 2) (drop 2 ?s) = None"
    and "migrate_content ascii_table ?s = splice 0 ?s (occurrences ascii_table ?s)"
    by blast+
  then show ?thesis
    using h1 h2 h3 h4 o by (simp add: targets_def)
qed

section \<open>The script as a whole\<close>

lemma main_ok:
  assumes "2 \<le> length argv" "files w (argv ! 1) = Some (Regular True True c)"
  shows "main uw argv w =
           (Exit 0,
            \<lparr>files = (files w)(argv ! 1 \<mapsto> Regular True True (migrate_content uw c)),
             trace = trace w @ [OpenRead (argv ! 1), OpenWrite (argv ! 1),
                                Wrote (argv ! 1) (migrate_content uw c),
                                Printed (py ''Processed '' @ argv ! 1)]\<rparr>)"
  using assms
  by (simp add: main_def path_exists_def read_file_def write_file_def emit_def Let_def)




text \<open>
  Claim C7. When the path argument names nothing that exists, the script exits with
  status 1, the one thing it does is to print the message \<^verbatim>\<open>File <path> not found\<close>
  naming the path, and no file is opened, written or changed.
\<close>

theorem missing_file_reported:
  assumes "2 \<le> length argv" "files w (argv ! 1) = None"
  shows "fst (main uw argv w) = Exit 1 \<and>
         exit_code (fst (main uw argv w)) \<noteq> 0 \<and>
         trace (snd (main uw argv w)) =
           trace w @ [Printed (py ''File '' @ argv ! 1 @ py '' not found'')] \<and>
         files (snd (main uw argv w)) = files w"
  using assms by (simp add: main_def path_exists_def emit_def Let_def)

theorem missing_file_reported_witness:
  "2 \<le> length [py ''migrate_logger.py'', py ''/no/such/file.go''] \<and>
   files (one_file []) ([py ''migrate_logger.py'', py ''/no/such/file.go''] ! 1) = None \<and>
   fst (main ascii_table [py ''migrate_logger.py'', py ''/no/such/file.go''] (one_file [])) = Exit 1 \<and>
   trace (snd (main ascii_table [py ''migrate_logger.py'', py ''/no/such/file.go''] (one_file []))) =
     [Printed (py ''File /no/such/file.go not found'')] \<and>
   files (snd (main ascii_table [py ''migrate_logger.py'', py ''/no/such/file.go''] (one_file []))) =
     files (one_file [])"
proof -
  have h1: "2 \<le> length [py ''migrate_logger.py'', py ''/no/such/file.go'']" by simp
  have h2: "files (one_file []) ([py ''migrate_logger.py'', py ''/no/such/file.go''] ! 1) = None"
    by (simp add: one_file_def py_def)
  show ?thesis
    using h1 h2 missing_file_reported [OF h1 h2, of ascii_table]
    by (simp add: one_file_def py_def)
qed

text \<open>
  Claim C8. Without a path argument the script exits with status 1, the one thing it
  does is to print the usage line, and no file is opened, read, written or changed.
\<close>

theorem missing_argument_usage:
  assumes "length argv < 2"
  shows "fst (main uw argv w) = Exit 1 \<and>
         exit_code (fst (main uw argv w)) \<noteq> 0 \<and>
         trace (snd (main uw argv w)) =
           trace w @ [Printed (py ''Usage: python3 migrate_logger.py <file_path>'')] \<and>
         files (snd (main uw argv w)) = files w"
  using assms by (simp add: main_def emit_def)

theorem missing_argument_usage_witness:
  "length [py ''migrate_logger.py''] < 2 \<and>
   fst (main ascii_table [py ''migrate_logger.py''] (one_file (py ''log.Print(1)''))) = Exit 1 \<and>
   trace (snd (main ascii_table [py ''migrate_logger.py''] (one_file (py ''log.Print(1)'')))) =
     [Printed (py ''Usage: python3 migrate_logger.py <file_path>'')] \<and>
   files (snd (main ascii_table [py ''migrate_logger.py''] (one_file (py ''log.Print(1)'')))) =
     files (one_file (py ''log.Print(1)''))"
proof -
  have h: "length [py ''migrate_logger.py''] < 2" by simp
  show ?thesis
    using h missing_argument_usage [OF h, of ascii_table "one_file (py ''log.Print(1)'')"]
    by (simp add: one_file_def)
qed




text \<open>
  Claim C10. Every run that ends with status 0 has read a regular file at the path,
  opened it for writing and written the migrated text back, whether or not the text
  changed, and then printed the \<^verbatim>\<open>Processed\<close> line.
\<close>

theorem success_rewrites_file:
  assumes "fst (main uw argv w) = Exit 0"
  shows "\<exists>r wr c. files w (argv ! 1) = Some (Regular r wr c) \<and>
           files (snd (main uw argv w)) = (files w)(argv ! 1 \<mapsto> Regular r wr (migrate_content uw c)) \<and>
           trace (snd (main uw argv w)) =
             trace w @ [OpenRead (argv ! 1), OpenWrite (argv ! 1),
                        Wrote (argv ! 1) (migrate_content uw c),
                        Printed (py ''Processed '' @ argv ! 1)]"
proof -
  have len: "2 \<le> length argv"
    using assms by (auto simp: main_def not_less split: if_splits)
  show ?thesis
  proof (cases "files w (argv ! 1)")
    case None
    then show ?thesis
      using assms len by (simp add: main_def path_exists_def Let_def)
  next
    case (Some n)
    show ?thesis
    proof (cases n)
      case Directory
      then show ?thesis
        using assms len Some
        by (simp add: main_def path_exists_def read_file_def emit_def Let_def)
    next
      case (Regular r wr c)
      then show ?thesis
        using assms len Some
        by (auto simp: main_def path_exists_def read_file_def write_file_def emit_def Let_def
            split: if_splits)
    qed
  qed
qed

theorem success_rewrites_file_witness:
  "fst (main ascii_table [py ''migrate_logger.py'', py ''/a.go''] (one_file (py ''x := 1''))) = Exit 0 \<and>
   migrate_content ascii_table (py ''x := 1'') = py ''x := 1'' \<and>
   trace (snd (main ascii_table [py ''migrate_logger.py'', py ''/a.go''] (one_file (py ''x := 1'')))) =
     [OpenRead (py ''/a.go''), OpenWrite (py ''/a.go''), Wrote (py ''/a.go'') (py ''x := 1''),
      Printed (py ''Processed /a.go'')]"
proof -
  let ?w = "one_file (py ''x := 1'')"
  let ?argv = "[py ''migrate_logger.py'', py ''/a.go'']"
  have m: "migrate_content ascii_table (py ''x := 1'') = py ''x := 1''"
    by code_simp
  have f: "files ?w (?argv ! 1) = Some (Regular True True (py ''x := 1''))"
    by (simp add: one_file_def)
  have h: "fst (main ascii_table ?argv ?w) = Exit 0"
    using main_ok [of ?argv ?w "py ''x := 1''" ascii_table] f by simp
  from success_rewrites_file [OF h] f m
  have "trace (snd (main ascii_table ?argv ?w)) =
          trace ?w @ [OpenRead (?argv ! 1), OpenWrite (?argv ! 1), Wrote (?argv ! 1) (py ''x := 1''),
                      Printed (py ''Processed '' @ ?argv ! 1)]"
    by auto
  then show ?thesis
    using h m by (simp add: one_file_def py_def)
qed

end
